theory Spec2Isabelle
  imports Main "HOL-Library.Sublist" "HOL-Library.AList"
begin

section \<open>Python strings\<close>

text \<open>
  A Python \<open>str\<close> is modelled as a HOL \<open>string\<close>, one \<open>char\<close> per code point; the model
  covers the code points below 256 (ASCII and Latin-1). The record file is opened as text
  with \<open>encoding='utf-8'\<close>, so the file content is modelled as the decoded text.
\<close>

abbreviation LF :: char where "LF \<equiv> CHR 0x0A"
abbreviation CR :: char where "CR \<equiv> CHR 0x0D"
abbreviation delimiter :: char where "delimiter \<equiv> CHR '',''"
abbreviation quotechar :: char where "quotechar \<equiv> CHR 0x22"

text \<open>\<open>str.isspace\<close> on one character: TAB, LF, VT, FF, CR, FS, GS, RS, US, space, NEL, NBSP.\<close>

definition isspace :: "char \<Rightarrow> bool" where
  "isspace c =
     (let n = (of_char c :: nat)
      in (9 \<le> n \<and> n \<le> 13) \<or> (28 \<le> n \<and> n \<le> 32) \<or> n = 133 \<or> n = 160)"

text \<open>\<open>str.lower\<close> on one character: A-Z, and the Latin-1 capitals except the times sign.\<close>

definition lower_char :: "char \<Rightarrow> char" where
  "lower_char c =
     (let n = (of_char c :: nat)
      in if (65 \<le> n \<and> n \<le> 90) \<or> (192 \<le> n \<and> n \<le> 222 \<and> n \<noteq> 215)
         then char_of (n + 32) else c)"

definition lower :: "string \<Rightarrow> string" where
  "lower s = map lower_char s"

text \<open>\<open>str.strip()\<close>: drops the leading and the trailing whitespace.\<close>

definition strip :: "string \<Rightarrow> string" where
  "strip s = rev (dropWhile isspace (rev (dropWhile isspace s)))"

section \<open>The record file\<close>

text \<open>
  The manager owns one path, \<open>csv_file\<close>. The state of the file system at that path is
  \<open>None\<close> when the file does not exist and \<open>Some text\<close> when it exists with that content.
\<close>

type_synonym fs = "string option"

datatype py_error = FileNotFoundError | csv_Error | KeyError | AttributeError

definition os_path_exists :: "fs \<Rightarrow> bool" where
  "os_path_exists f = (f \<noteq> None)"

text \<open>\<open>open(path, 'w', newline='')\<close> followed by one write: the file is created or truncated.\<close>

definition open_w_write :: "string \<Rightarrow> fs \<Rightarrow> fs" where
  "open_w_write text f = Some text"

text \<open>\<open>open(path, 'a', newline='')\<close> followed by one write: the file is created when absent,
  and the text goes to its end. With \<open>newline=''\<close> nothing is translated.\<close>

definition open_a_write :: "string \<Rightarrow> fs \<Rightarrow> fs" where
  "open_a_write text f = (case f of None \<Rightarrow> Some text | Some old \<Rightarrow> Some (old @ text))"

text \<open>
  \<open>open(path, 'r')\<close> with the default \<open>newline=None\<close>: universal newlines. On reading,
  \<open>\r\n\<close> and a lone \<open>\r\<close> both arrive as \<open>\n\<close>.
\<close>

fun universal_newlines :: "string \<Rightarrow> string" where
  "universal_newlines [] = []"
| "universal_newlines [c] = (if c = CR then [LF] else [c])"
| "universal_newlines (c # d # cs) =
     (if c = CR \<and> d = LF then LF # universal_newlines cs
      else if c = CR then LF # universal_newlines (d # cs)
      else c # universal_newlines (d # cs))"

definition open_r_read :: "fs \<Rightarrow> py_error + string" where
  "open_r_read f = (case f of None \<Rightarrow> Inl FileNotFoundError | Some text \<Rightarrow> Inr (universal_newlines text))"

text \<open>Iterating over a text file yields its lines, each with its terminating \<open>\n\<close>
  (the last one without, when the file does not end in a newline).\<close>

fun file_lines :: "string \<Rightarrow> string list" where
  "file_lines [] = []"
| "file_lines (c # cs) =
     (if c = LF then [c] # file_lines cs
      else (case file_lines cs of [] \<Rightarrow> [[c]] | l # ls \<Rightarrow> (c # l) # ls))"

section \<open>The csv module, excel dialect\<close>

text \<open>
  \<open>csv.writer(f).writerow(row)\<close> with the default dialect: delimiter \<open>,\<close>, quote character
  \<open>"\<close>, \<open>doublequote\<close>, \<open>QUOTE_MINIMAL\<close>, line terminator \<open>\r\n\<close>. A field is quoted when
  it contains the delimiter, the quote character or a character of the line terminator;
  a quote inside is doubled. A row of one empty field is written as \<open>""\<close>.
\<close>

definition needs_quote :: "string \<Rightarrow> bool" where
  "needs_quote s = list_ex (\<lambda>c. c = delimiter \<or> c = quotechar \<or> c = CR \<or> c = LF) s"

fun double_quotes :: "string \<Rightarrow> string" where
  "double_quotes [] = []"
| "double_quotes (c # cs) =
     (if c = quotechar then quotechar # quotechar # double_quotes cs else c # double_quotes cs)"

definition join_append :: "string \<Rightarrow> string" where
  "join_append s = (if needs_quote s then quotechar # double_quotes s @ [quotechar] else s)"

fun join_fields :: "string list \<Rightarrow> string" where
  "join_fields [] = []"
| "join_fields [s] = join_append s"
| "join_fields (s # t # ts) = join_append s @ delimiter # join_fields (t # ts)"

definition writerow :: "string list \<Rightarrow> string" where
  "writerow row =
     (if row = [[]] then [quotechar, quotechar] else join_fields row) @ [CR, LF]"

text \<open>
  \<open>csv.reader\<close>: the state machine of the C module, for the excel dialect (no escape
  character, \<open>skipinitialspace\<close> off, not strict). \<open>None\<close> as input is the end-of-line
  marker the reader feeds after the characters of each line. A NUL character is an
  ordinary character, as from CPython 3.11 on. A field may hold \<open>csv.field_size_limit()\<close>
  characters, 131072 unless a program changes it (the manager does not): adding one more
  raises \<open>csv.Error\<close>.
\<close>

definition field_limit :: nat where
  "field_limit = 131072"

datatype parser_state =
  START_RECORD | START_FIELD | IN_FIELD | IN_QUOTED_FIELD | QUOTE_IN_QUOTED_FIELD | EAT_CRNL

record reader =
  state :: parser_state
  field :: string
  row_fields :: "string list"

definition parse_reset :: reader where
  "parse_reset = \<lparr>state = START_RECORD, field = [], row_fields = []\<rparr>"

definition parse_save_field :: "reader \<Rightarrow> reader" where
  "parse_save_field r = r\<lparr>row_fields := row_fields r @ [field r], field := []\<rparr>"

definition parse_add_char :: "reader \<Rightarrow> char \<Rightarrow> py_error + reader" where
  "parse_add_char r c =
     (if field_limit \<le> length (field r) then Inl csv_Error else Inr (r\<lparr>field := field r @ [c]\<rparr>))"

text \<open>The state set once a step that can fail has succeeded.\<close>

definition and_then_state :: "py_error + reader \<Rightarrow> parser_state \<Rightarrow> py_error + reader" where
  "and_then_state x s = (case x of Inl e \<Rightarrow> Inl e | Inr r \<Rightarrow> Inr (r\<lparr>state := s\<rparr>))"

definition is_newline :: "char option \<Rightarrow> bool" where
  "is_newline c = (c = Some LF \<or> c = Some CR \<or> c = None)"

definition after_newline :: "char option \<Rightarrow> parser_state" where
  "after_newline c = (if c = None then START_RECORD else EAT_CRNL)"

definition start_field :: "reader \<Rightarrow> char option \<Rightarrow> py_error + reader" where
  "start_field r c =
     (if is_newline c then Inr ((parse_save_field r)\<lparr>state := after_newline c\<rparr>)
      else if c = Some quotechar then Inr (r\<lparr>state := IN_QUOTED_FIELD\<rparr>)
      else if c = Some delimiter then Inr ((parse_save_field r)\<lparr>state := START_FIELD\<rparr>)
      else and_then_state (parse_add_char r (the c)) IN_FIELD)"

fun parse_process_char :: "reader \<Rightarrow> char option \<Rightarrow> py_error + reader" where
  "parse_process_char r c =
     (case state r of
        START_RECORD \<Rightarrow>
          (if c = None then Inr r
           else if c = Some LF \<or> c = Some CR then Inr (r\<lparr>state := EAT_CRNL\<rparr>)
           else start_field r c)
      | START_FIELD \<Rightarrow> start_field r c
      | IN_FIELD \<Rightarrow>
          (if is_newline c then Inr ((parse_save_field r)\<lparr>state := after_newline c\<rparr>)
           else if c = Some delimiter then Inr ((parse_save_field r)\<lparr>state := START_FIELD\<rparr>)
           else parse_add_char r (the c))
      | IN_QUOTED_FIELD \<Rightarrow>
          (if c = None then Inr r
           else if c = Some quotechar then Inr (r\<lparr>state := QUOTE_IN_QUOTED_FIELD\<rparr>)
           else parse_add_char r (the c))
      | QUOTE_IN_QUOTED_FIELD \<Rightarrow>
          (if c = Some quotechar then and_then_state (parse_add_char r quotechar) IN_QUOTED_FIELD
           else if c = Some delimiter then Inr ((parse_save_field r)\<lparr>state := START_FIELD\<rparr>)
           else if is_newline c then Inr ((parse_save_field r)\<lparr>state := after_newline c\<rparr>)
           else and_then_state (parse_add_char r (the c)) IN_FIELD)
      | EAT_CRNL \<Rightarrow>
          (if c = Some LF \<or> c = Some CR then Inr r
           else if c = None then Inr (r\<lparr>state := START_RECORD\<rparr>)
           else Inl csv_Error))"

text \<open>The characters of one line, in order; the first error stops the line.\<close>

fun process_line :: "reader \<Rightarrow> string \<Rightarrow> py_error + reader" where
  "process_line r [] = Inr r"
| "process_line r (c # cs) =
     (case parse_process_char r (Some c) of Inl e \<Rightarrow> Inl e | Inr r' \<Rightarrow> process_line r' cs)"

text \<open>
  \<open>list(csv.reader(lines))\<close>: \<open>Reader_iternext\<close> called until the input is exhausted. A
  record takes lines until the state is back at \<open>START_RECORD\<close>; when the input ends inside
  a record, the pending field is saved and the record returned.
\<close>

fun reader_rows :: "reader \<Rightarrow> string list \<Rightarrow> py_error + string list list" where
  "reader_rows r [] =
     (if field r \<noteq> [] \<or> state r = IN_QUOTED_FIELD then Inr [row_fields (parse_save_field r)]
      else Inr [])"
| "reader_rows r (l # ls) =
     (case process_line r l of
        Inl e \<Rightarrow> Inl e
      | Inr r1 \<Rightarrow>
          (case parse_process_char r1 None of
             Inl e \<Rightarrow> Inl e
           | Inr r2 \<Rightarrow>
               if state r2 \<noteq> START_RECORD then reader_rows r2 ls
               else (case reader_rows parse_reset ls of
                       Inl e \<Rightarrow> Inl e
                     | Inr rows \<Rightarrow> Inr (row_fields r2 # rows))))"

text \<open>
  \<open>csv.DictReader\<close>: the first row gives the field names; an empty row is skipped; a
  short row is filled with \<open>None\<close>, and the surplus of a long row goes under the key \<open>None\<close>.
  A dict is an association list in insertion order, a later value for a key replacing the
  earlier one in place.
\<close>

datatype pyval = Str string | PyNone | StrList "string list"

type_synonym pydict = "(string option \<times> pyval) list"

definition dict_zip :: "string list \<Rightarrow> string list \<Rightarrow> pydict" where
  "dict_zip keys vals = foldl (\<lambda>d (k, v). AList.update (Some k) (Str v) d) [] (zip keys vals)"

definition DictReader_row :: "string list \<Rightarrow> string list \<Rightarrow> pydict" where
  "DictReader_row fieldnames row =
     (let d = dict_zip fieldnames row; lf = length fieldnames; lr = length row
      in if lf < lr then AList.update None (StrList (drop lf row)) d
         else if lf > lr then foldl (\<lambda>d key. AList.update (Some key) PyNone d) d (drop lr fieldnames)
         else d)"

definition DictReader :: "string list \<Rightarrow> py_error + pydict list" where
  "DictReader lines =
     (case reader_rows parse_reset lines of
        Inl e \<Rightarrow> Inl e
      | Inr [] \<Rightarrow> Inr []
      | Inr (fieldnames # rows) \<Rightarrow>
          Inr (map (DictReader_row fieldnames) (filter (\<lambda>row. row \<noteq> []) rows)))"

text \<open>\<open>r[key]\<close> and \<open>.lower()\<close> on what it returns.\<close>

definition getitem :: "pydict \<Rightarrow> string \<Rightarrow> py_error + pyval" where
  "getitem d key = (case map_of d (Some key) of None \<Rightarrow> Inl KeyError | Some v \<Rightarrow> Inr v)"

fun val_lower :: "pyval \<Rightarrow> py_error + string" where
  "val_lower (Str s) = Inr (lower s)"
| "val_lower PyNone = Inl AttributeError"
| "val_lower (StrList l) = Inl AttributeError"

definition getitem_lower :: "pydict \<Rightarrow> string \<Rightarrow> py_error + string" where
  "getitem_lower d key = (case getitem d key of Inl e \<Rightarrow> Inl e | Inr v \<Rightarrow> val_lower v)"

section \<open>Time\<close>

text \<open>\<open>datetime.now().strftime("%Y-%m-%d %H:%M:%S")\<close>; the fields are within the ranges
  of \<open>datetime\<close>, and the year has four digits, as the clock of a running system has.\<close>

record datetime =
  year :: nat
  month :: nat
  day :: nat
  hour :: nat
  minute :: nat
  second :: nat

definition digit :: "nat \<Rightarrow> char" where
  "digit n = char_of (48 + n mod 10)"

definition pad2 :: "nat \<Rightarrow> string" where
  "pad2 n = [digit (n div 10), digit n]"

definition pad4 :: "nat \<Rightarrow> string" where
  "pad4 n = [digit (n div 1000), digit (n div 100), digit (n div 10), digit n]"

definition strftime :: "datetime \<Rightarrow> string" where
  "strftime t =
     pad4 (year t) @ ''-'' @ pad2 (month t) @ ''-'' @ pad2 (day t) @ '' '' @
     pad2 (hour t) @ '':'' @ pad2 (minute t) @ '':'' @ pad2 (second t)"

section \<open>The validator\<close>

text \<open>
  \<open>manager.py\<close> imports \<open>RegistrationValidator\<close> from \<open>validator.py\<close>, which is not among
  the sources. The manager takes it as a parameter: three functions from a string to a
  pass/fail flag and a message.
\<close>

record RegistrationValidator =
  validate_name :: "string \<Rightarrow> bool \<times> string"
  validate_email :: "string \<Rightarrow> bool \<times> string"
  validate_date_of_birth :: "string \<Rightarrow> bool \<times> string"

section \<open>RegistrationManager\<close>

definition REQUIRED_FIELDS :: "string list" where
  "REQUIRED_FIELDS = [''Name'', ''Email'', ''Date_of_Birth'', ''Registration_Date'']"

record query_result =
  success :: bool
  count :: "nat option"
  data :: "pydict list"

text \<open>The result of \<open>add_registration\<close>: \<open>Registered message data\<close> is the dict with
  \<open>success\<close> true, \<open>Rejected error details\<close> the one with \<open>success\<close> false, \<open>details\<close>
  being \<open>None\<close> when the dict has no such key.\<close>

datatype add_result =
  Registered string pydict
| Rejected string "string list option"

definition ValidationFailed :: "string list \<Rightarrow> add_result" where
  "ValidationFailed reasons = Rejected ''Validation failed'' (Some reasons)"

definition DuplicateEmail :: add_result where
  "DuplicateEmail = Rejected ''Email already registered'' None"

definition ensure_csv_exists :: "fs \<Rightarrow> fs" where
  "ensure_csv_exists f =
     (if \<not> os_path_exists f then open_w_write (writerow REQUIRED_FIELDS) f else f)"

text \<open>\<open>RegistrationManager(csv_file)\<close>.\<close>

definition init :: "fs \<Rightarrow> fs" where
  "init f = ensure_csv_exists f"

definition get_all_registrations :: "fs \<Rightarrow> (py_error + query_result) \<times> fs" where
  "get_all_registrations f =
     (if \<not> os_path_exists f then (Inr \<lparr>success = True, count = Some 0, data = []\<rparr>, f)
      else (case open_r_read f of
              Inl e \<Rightarrow> (Inl e, f)
            | Inr text \<Rightarrow>
                (case DictReader (file_lines text) of
                   Inl e \<Rightarrow> (Inl e, f)
                 | Inr rows \<Rightarrow> (Inr \<lparr>success = True, count = None, data = rows\<rparr>, f))))"

text \<open>\<open>query in r["Name"].lower() or query in r["Email"].lower()\<close>: the email is looked
  at only when the name does not match.\<close>

definition row_matches :: "string \<Rightarrow> pydict \<Rightarrow> py_error + bool" where
  "row_matches query r =
     (case getitem_lower r ''Name'' of
        Inl e \<Rightarrow> Inl e
      | Inr n \<Rightarrow>
          if sublist query n then Inr True
          else (case getitem_lower r ''Email'' of
                  Inl e \<Rightarrow> Inl e
                | Inr m \<Rightarrow> Inr (sublist query m)))"

fun matching_rows :: "string \<Rightarrow> pydict list \<Rightarrow> py_error + pydict list" where
  "matching_rows query [] = Inr []"
| "matching_rows query (r # rs) =
     (case row_matches query r of
        Inl e \<Rightarrow> Inl e
      | Inr b \<Rightarrow>
          (case matching_rows query rs of
             Inl e \<Rightarrow> Inl e
           | Inr results \<Rightarrow> Inr (if b then r # results else results)))"

definition search_registrations :: "string \<Rightarrow> fs \<Rightarrow> (py_error + query_result) \<times> fs" where
  "search_registrations query0 f =
     (let query = strip (lower query0)
      in case get_all_registrations f of
           (Inl e, f1) \<Rightarrow> (Inl e, f1)
         | (Inr res, f1) \<Rightarrow>
             (case matching_rows query (data res) of
                Inl e \<Rightarrow> (Inl e, f1)
              | Inr results \<Rightarrow>
                  (Inr \<lparr>success = True, count = Some (length results), data = results\<rparr>, f1)))"

text \<open>\<open>any(r["Email"].lower() == email.lower() for r in ...)\<close>: stops at the first match.\<close>

fun any_email :: "string \<Rightarrow> pydict list \<Rightarrow> py_error + bool" where
  "any_email email [] = Inr False"
| "any_email email (r # rs) =
     (case getitem_lower r ''Email'' of
        Inl e \<Rightarrow> Inl e
      | Inr m \<Rightarrow> if m = lower email then Inr True else any_email email rs)"

definition email_exists :: "string \<Rightarrow> fs \<Rightarrow> (py_error + bool) \<times> fs" where
  "email_exists email f =
     (case get_all_registrations f of
        (Inl e, f1) \<Rightarrow> (Inl e, f1)
      | (Inr res, f1) \<Rightarrow> (any_email email (data res), f1))"

definition registration :: "string \<Rightarrow> string \<Rightarrow> string \<Rightarrow> string \<Rightarrow> pydict" where
  "registration name email dob registration_date =
     [(Some ''Name'', Str name), (Some ''Email'', Str email),
      (Some ''Date_of_Birth'', Str dob), (Some ''Registration_Date'', Str registration_date)]"

definition add_registration ::
  "RegistrationValidator \<Rightarrow> datetime \<Rightarrow> string \<Rightarrow> string \<Rightarrow> string \<Rightarrow> fs \<Rightarrow> (py_error + add_result) \<times> fs" where
  "add_registration V now name email dob f =
     (let (name_valid, name_msg) = validate_name V name;
          (email_valid, email_msg) = validate_email V email;
          (dob_valid, dob_msg) = validate_date_of_birth V dob
      in if \<not> list_all id [name_valid, email_valid, dob_valid]
         then (Inr (Rejected ''Validation failed'' (Some [name_msg, email_msg, dob_msg])), f)
         else (case email_exists email f of
                 (Inl e, f1) \<Rightarrow> (Inl e, f1)
               | (Inr True, f1) \<Rightarrow> (Inr (Rejected ''Email already registered'' None), f1)
               | (Inr False, f1) \<Rightarrow>
                   (let registration_date = strftime now;
                        f2 = open_a_write (writerow [strip name, strip email, dob, registration_date]) f1
                    in (Inr (Registered (''Registered '' @ name)
                               (registration name email dob registration_date)), f2))))"

section \<open>Calls in sequence\<close>

text \<open>A client constructs managers and calls their methods; \<open>perform\<close> gives the file
  after one call, whatever the call returned.\<close>

datatype call =
  Construct
| Add RegistrationValidator datetime string string string
| ListAll
| Search string
| EmailExists string

fun perform :: "call \<Rightarrow> fs \<Rightarrow> fs" where
  "perform Construct f = init f"
| "perform (Add V now name email dob) f = snd (add_registration V now name email dob f)"
| "perform ListAll f = snd (get_all_registrations f)"
| "perform (Search query) f = snd (search_registrations query f)"
| "perform (EmailExists email) f = snd (email_exists email f)"

section \<open>The store as rows\<close>

text \<open>
  \<open>store_file rows\<close> is the file of a store that holds \<open>rows\<close>: the header row, then one
  written row for each record, in order. \<open>as_read\<close> is the dict that \<open>csv.DictReader\<close>
  returns for such a row: the four fields under the header's names, with the newlines of
  the text-mode read.
\<close>

type_synonym row = "string \<times> string \<times> string \<times> string"

definition row_cells :: "row \<Rightarrow> string list" where
  "row_cells r = (case r of (name, email, dob, registration_date) \<Rightarrow> [name, email, dob, registration_date])"

definition store_file :: "row list \<Rightarrow> fs" where
  "store_file rows = Some (writerow REQUIRED_FIELDS @ concat (map (\<lambda>r. writerow (row_cells r)) rows))"

definition as_read :: "row \<Rightarrow> pydict" where
  "as_read r =
     (case r of (name, email, dob, registration_date) \<Rightarrow>
        registration (universal_newlines name) (universal_newlines email)
          (universal_newlines dob) (universal_newlines registration_date))"

definition header_line :: string where
  "header_line = ''Name,Email,Date_of_Birth,Registration_Date'' @ [CR, LF]"

text \<open>Auxiliary notions for the analysis of the reader: a character that needs no quoting,
  a row followed by the rows of the remaining text, and \<open>writerow\<close> as the text-mode read
  shows it, ending in \<open>\n\<close>.\<close>

definition plain :: "char \<Rightarrow> bool" where
  "plain c = (c \<noteq> delimiter \<and> c \<noteq> quotechar \<and> c \<noteq> CR \<and> c \<noteq> LF)"

definition emit :: "string list \<Rightarrow> string \<Rightarrow> py_error + string list list" where
  "emit r t =
     (case reader_rows parse_reset (file_lines t) of Inl e \<Rightarrow> Inl e | Inr rows \<Rightarrow> Inr (r # rows))"

definition writerow_lf :: "string list \<Rightarrow> string" where
  "writerow_lf r = (if r = [[]] then [quotechar, quotechar] else join_fields r) @ [LF]"

text \<open>The name and the email that a listing shows for a row of the file.\<close>

definition listed_name :: "row \<Rightarrow> string" where
  "listed_name r = (case r of (name, email, dob, registration_date) \<Rightarrow> universal_newlines name)"

definition listed_email :: "row \<Rightarrow> string" where
  "listed_email r = (case r of (name, email, dob, registration_date) \<Rightarrow> universal_newlines email)"

text \<open>A field that the reader accepts: as read, it has at most \<open>field_limit\<close> characters.
  A store is readable when all the fields of its rows are.\<close>

definition within_limit :: "string \<Rightarrow> bool" where
  "within_limit s = (length (universal_newlines s) \<le> field_limit)"

definition readable :: "row list \<Rightarrow> bool" where
  "readable rows = list_all (\<lambda>r. list_all within_limit (row_cells r)) rows"

text \<open>The row that a successful \<open>add_registration\<close> writes for its arguments and clock.\<close>

definition written :: "string \<times> string \<times> string \<times> datetime \<Rightarrow> row" where
  "written x = (case x of (name, email, dob, now) \<Rightarrow> (strip name, strip email, dob, strftime now))"

section \<open>A validator after the specification\<close>

text \<open>
  Modelled from the spec: \<open>validator.py\<close> (the class \<open>RegistrationValidator\<close>) is missing
  from the sources. The specification (4.1) gives: a name fails when, after trimming, it is
  empty, shorter than a minimum length or has a character not allowed in a display name;
  an email fails when it does not match a local-part, \<open>@\<close>, domain-with-dot pattern; a date
  of birth fails when it is not a calendar date written \<open>YYYY-MM-DD\<close>, when it is in the
  future, or when the age is over a maximum. The thresholds are left to the implementer:
  here a minimum length of 2, letters, space, hyphen, apostrophe and full stop in a name,
  and a maximum age of 120 years. It is used for concrete runs only; the theorems about the
  manager hold for every validator.
\<close>

definition isalpha :: "char \<Rightarrow> bool" where
  "isalpha c = (let n = (of_char c :: nat) in (65 \<le> n \<and> n \<le> 90) \<or> (97 \<le> n \<and> n \<le> 122))"

definition isdigit :: "char \<Rightarrow> bool" where
  "isdigit c = (let n = (of_char c :: nat) in 48 \<le> n \<and> n \<le> 57)"

definition MIN_NAME_LENGTH :: nat where
  "MIN_NAME_LENGTH = 2"

definition MAX_AGE :: nat where
  "MAX_AGE = 120"

definition name_char :: "char \<Rightarrow> bool" where
  "name_char c = (isalpha c \<or> c = CHR '' '' \<or> c = CHR ''-'' \<or> c = CHR 0x27 \<or> c = CHR ''.'')"

definition spec_validate_name :: "string \<Rightarrow> bool \<times> string" where
  "spec_validate_name name =
     (let n = strip name
      in if n = [] then (False, ''InvalidName: empty'')
         else if length n < MIN_NAME_LENGTH then (False, ''InvalidName: too short'')
         else if \<not> list_all name_char n then (False, ''InvalidName: disallowed character'')
         else (True, ''ok''))"

definition dotted :: "string \<Rightarrow> bool" where
  "dotted d = list_ex (\<lambda>i. d ! i = CHR ''.'') [1 ..< length d - 1]"

definition spec_validate_email :: "string \<Rightarrow> bool \<times> string" where
  "spec_validate_email email =
     (let local_part = takeWhile (\<lambda>c. c \<noteq> CHR ''@'') email;
          rest = dropWhile (\<lambda>c. c \<noteq> CHR ''@'') email
      in if local_part \<noteq> [] \<and> rest \<noteq> [] \<and> list_all (\<lambda>c. c \<noteq> CHR ''@'') (tl rest) \<and> dotted (tl rest)
         then (True, ''ok'') else (False, ''InvalidEmail''))"

definition digits_value :: "string \<Rightarrow> nat" where
  "digits_value s = foldl (\<lambda>n c. 10 * n + (of_char c - 48)) 0 s"

definition leap_year :: "nat \<Rightarrow> bool" where
  "leap_year y = (if y mod 400 = 0 then True else if y mod 100 = 0 then False else y mod 4 = 0)"

definition days_in_month :: "nat \<Rightarrow> nat \<Rightarrow> nat" where
  "days_in_month y m =
     (if m = 2 then (if leap_year y then 29 else 28)
      else if m = 4 \<or> m = 6 \<or> m = 9 \<or> m = 11 then 30 else 31)"

definition spec_validate_date_of_birth :: "datetime \<Rightarrow> string \<Rightarrow> bool \<times> string" where
  "spec_validate_date_of_birth today dob =
     (if \<not> (length dob = 10 \<and> dob ! 4 = CHR ''-'' \<and> dob ! 7 = CHR ''-'' \<and>
             list_all isdigit (take 4 dob @ take 2 (drop 5 dob) @ drop 8 dob))
      then (False, ''InvalidDateFormat'')
      else (let y = digits_value (take 4 dob);
                m = digits_value (take 2 (drop 5 dob));
                d = digits_value (drop 8 dob)
            in if \<not> (1 \<le> y \<and> 1 \<le> m \<and> m \<le> 12 \<and> 1 \<le> d \<and> d \<le> days_in_month y m)
               then (False, ''InvalidDateFormat'')
               else if year today < y \<or> (year today = y \<and> (month today < m \<or> (month today = m \<and> day today < d)))
               then (False, ''InvalidDateRange: in the future'')
               else if y + MAX_AGE < year today
               then (False, ''InvalidDateRange: over the maximum age'')
               else (True, ''ok'')))"

definition spec_validator :: "datetime \<Rightarrow> RegistrationValidator" where
  "spec_validator today =
     \<lparr>validate_name = spec_validate_name, validate_email = spec_validate_email,
      validate_date_of_birth = spec_validate_date_of_birth today\<rparr>"

text \<open>The search as the specification words it: the records whose name or email contains
  the query, compared without regard to case.\<close>

definition spec_search :: "string \<Rightarrow> row list \<Rightarrow> row list" where
  "spec_search query rows =
     filter (\<lambda>(name, email, dob, registration_date).
               sublist (lower query) (lower name) \<or> sublist (lower query) (lower email)) rows"

text \<open>Concrete data for the runs below.\<close>

definition noon :: datetime where
  "noon = \<lparr>year = 2024, month = 3, day = 9, hour = 12, minute = 0, second = 0\<rparr>"

definition john :: row where
  "john = (''John Doe'', ''john@x.com'', ''1990-01-15'', ''2024-03-09 12:00:00'')"

definition jane :: row where
  "jane = (''Jane Roe'', ''jane@x.com'', ''1985-07-30'', ''2024-03-09 12:00:01'')"

text \<open>A name one character longer than the reader's field limit, and the row an addition
  writes for it.\<close>

definition long_name :: string where
  "long_name = replicate (Suc field_limit) (CHR ''a'')"

definition long_row :: row where
  "long_row = (long_name, ''john@example.com'', ''1990-01-15'', ''2024-03-09 12:00:00'')"

section \<open>Reading back what the writer wrote\<close>

text \<open>The reader, one character at a time: a character other than \<open>\n\<close> with text after it,
  and \<open>\n\<close>, which ends the line.\<close>


lemma file_lines_nonempty: "t \<noteq> [] \<Longrightarrow> file_lines t \<noteq> []"
  by (cases t) (auto split: list.splits)

lemma run_char:
  assumes "c \<noteq> LF" "t \<noteq> []"
  shows "reader_rows r (file_lines (c # t)) =
         (case parse_process_char r (Some c) of Inl e \<Rightarrow> Inl e | Inr r' \<Rightarrow> reader_rows r' (file_lines t))"
proof -
  obtain l ls where L: "file_lines t = l # ls"
    using file_lines_nonempty[OF assms(2)] by (cases "file_lines t") auto
  show ?thesis using assms(1) by (simp add: L split: sum.splits)
qed

lemma run_newline:
  "reader_rows r (file_lines (LF # t)) =
     (case parse_process_char r (Some LF) of
        Inl e \<Rightarrow> Inl e
      | Inr r1 \<Rightarrow>
          (case parse_process_char r1 None of
             Inl e \<Rightarrow> Inl e
           | Inr r2 \<Rightarrow>
               if state r2 \<noteq> START_RECORD then reader_rows r2 (file_lines t)
               else (case reader_rows parse_reset (file_lines t) of
                       Inl e \<Rightarrow> Inl e
                     | Inr rows \<Rightarrow> Inr (row_fields r2 # rows))))"
  by (simp split: sum.splits)

lemma in_field_plain:
  "list_all plain u \<Longrightarrow> t \<noteq> [] \<Longrightarrow> length f \<le> field_limit \<Longrightarrow>
   reader_rows \<lparr>state = IN_FIELD, field = f, row_fields = fs\<rparr> (file_lines (u @ t)) =
   (if length f + length u \<le> field_limit
    then reader_rows \<lparr>state = IN_FIELD, field = f @ u, row_fields = fs\<rparr> (file_lines t)
    else Inl csv_Error)"
proof (induction u arbitrary: f)
  case Nil
  then show ?case by simp
next
  case (Cons c u)
  show ?case
  proof (cases "length f = field_limit")
    case True
    then show ?thesis
      using Cons.prems
      by (simp add: run_char plain_def is_newline_def parse_add_char_def del: file_lines.simps)
  next
    case False
    then have len: "length (f @ [c]) \<le> field_limit" using Cons.prems(3) by simp
    have "reader_rows \<lparr>state = IN_FIELD, field = f, row_fields = fs\<rparr> (file_lines ((c # u) @ t)) =
          reader_rows \<lparr>state = IN_FIELD, field = f @ [c], row_fields = fs\<rparr> (file_lines (u @ t))"
      using Cons.prems False
      by (simp add: run_char plain_def is_newline_def parse_add_char_def del: file_lines.simps)
    then show ?thesis
      using Cons.IH[OF _ Cons.prems(2) len] Cons.prems(1) by simp
  qed
qed

lemma in_quoted:
  "t \<noteq> [] \<Longrightarrow> length f \<le> field_limit \<Longrightarrow>
   reader_rows \<lparr>state = IN_QUOTED_FIELD, field = f, row_fields = fs\<rparr>
     (file_lines (double_quotes s @ quotechar # t)) =
   (if length f + length s \<le> field_limit
    then reader_rows \<lparr>state = QUOTE_IN_QUOTED_FIELD, field = f @ s, row_fields = fs\<rparr> (file_lines t)
    else Inl csv_Error)"
proof (induction s arbitrary: f)
  case Nil
  then show ?case by (simp add: run_char del: file_lines.simps)
next
  case (Cons c s)
  let ?rest = "double_quotes s @ quotechar # t"
  have step: "reader_rows \<lparr>state = IN_QUOTED_FIELD, field = f, row_fields = fs\<rparr>
          (file_lines (double_quotes (c # s) @ quotechar # t)) =
        (if length f = field_limit then Inl csv_Error
         else reader_rows \<lparr>state = IN_QUOTED_FIELD, field = f @ [c], row_fields = fs\<rparr> (file_lines ?rest))"
  proof (cases "c = LF")
    case True
    then show ?thesis
      using Cons.prems(2)
      by (simp add: run_newline parse_add_char_def and_then_state_def del: file_lines.simps)
  next
    case False
    then show ?thesis
      using Cons.prems(2)
      by (simp add: run_char parse_add_char_def and_then_state_def del: file_lines.simps)
  qed
  show ?case
  proof (cases "length f = field_limit")
    case True
    then show ?thesis using step by simp
  next
    case False
    then have len: "length (f @ [c]) \<le> field_limit" using Cons.prems(2) by simp
    show ?thesis using Cons.IH[OF Cons.prems(1) len] step False by simp
  qed
qed

lemma not_needs_quote: "\<not> needs_quote s \<Longrightarrow> list_all plain s"
  by (simp add: needs_quote_def plain_def list_ex_iff list_all_iff)

lemma field_limit_pos: "0 < field_limit" "Suc 0 \<le> field_limit"
  by (simp_all add: field_limit_def)

lemma field_start:
  assumes "s0 = START_RECORD \<or> s0 = START_FIELD" and "k \<noteq> []" and "s \<noteq> []"
  shows "reader_rows \<lparr>state = s0, field = [], row_fields = fs\<rparr> (file_lines (join_append s @ k)) =
         (if length s \<le> field_limit
          then reader_rows \<lparr>state = (if needs_quote s then QUOTE_IN_QUOTED_FIELD else IN_FIELD),
                            field = s, row_fields = fs\<rparr> (file_lines k)
          else Inl csv_Error)"
proof (cases "needs_quote s")
  case True
  have "reader_rows \<lparr>state = s0, field = [], row_fields = fs\<rparr> (file_lines (join_append s @ k)) =
        reader_rows \<lparr>state = IN_QUOTED_FIELD, field = [], row_fields = fs\<rparr>
           (file_lines (double_quotes s @ quotechar # k))"
    using assms(1) True
    by (auto simp add: join_append_def run_char start_field_def is_newline_def simp del: file_lines.simps)
  then show ?thesis
    using in_quoted[OF assms(2), of "[]" fs s] True by simp
next
  case False
  then have P: "list_all plain s" by (rule not_needs_quote)
  obtain c u where s: "s = c # u" using assms(3) by (cases s) auto
  then have pc: "plain c" and pu: "list_all plain u" using P by simp_all
  have "reader_rows \<lparr>state = s0, field = [], row_fields = fs\<rparr> (file_lines (join_append s @ k)) =
        reader_rows \<lparr>state = IN_FIELD, field = [c], row_fields = fs\<rparr> (file_lines (u @ k))"
    using assms(1,2) False s pc field_limit_pos
    by (auto simp add: join_append_def run_char start_field_def is_newline_def plain_def
        parse_add_char_def and_then_state_def simp del: file_lines.simps)
  then show ?thesis
    using in_field_plain[OF pu assms(2), of "[c]" fs] False s field_limit_pos by simp
qed

lemma field_then_delim:
  assumes "s0 = START_RECORD \<or> s0 = START_FIELD" and "t \<noteq> []"
  shows "reader_rows \<lparr>state = s0, field = [], row_fields = fs\<rparr>
           (file_lines (join_append s @ delimiter # t)) =
         (if length s \<le> field_limit
          then reader_rows \<lparr>state = START_FIELD, field = [], row_fields = fs @ [s]\<rparr> (file_lines t)
          else Inl csv_Error)"
proof (cases "s = []")
  case True
  then show ?thesis using assms
    by (auto simp add: join_append_def needs_quote_def run_char start_field_def is_newline_def
        parse_save_field_def simp del: file_lines.simps)
next
  case False
  have "reader_rows \<lparr>state = (if needs_quote s then QUOTE_IN_QUOTED_FIELD else IN_FIELD),
                     field = s, row_fields = fs\<rparr> (file_lines (delimiter # t)) =
        reader_rows \<lparr>state = START_FIELD, field = [], row_fields = fs @ [s]\<rparr> (file_lines t)"
    using assms(2) by (simp add: run_char parse_save_field_def is_newline_def del: file_lines.simps)
  then show ?thesis
    using field_start[OF assms(1) _ False, of "delimiter # t" fs] by simp
qed

lemma field_then_newline:
  assumes "s0 = START_FIELD \<or> (s0 = START_RECORD \<and> s \<noteq> [])"
  shows "reader_rows \<lparr>state = s0, field = [], row_fields = fs\<rparr>
           (file_lines (join_append s @ LF # t)) =
         (if length s \<le> field_limit then emit (fs @ [s]) t else Inl csv_Error)"
proof (cases "s = []")
  case True
  then show ?thesis using assms
    by (auto simp add: join_append_def needs_quote_def run_newline start_field_def is_newline_def
        parse_save_field_def after_newline_def emit_def simp del: file_lines.simps cong: sum.case_cong)
next
  case False
  have s0: "s0 = START_RECORD \<or> s0 = START_FIELD" using assms by auto
  have "reader_rows \<lparr>state = (if needs_quote s then QUOTE_IN_QUOTED_FIELD else IN_FIELD),
                     field = s, row_fields = fs\<rparr> (file_lines (LF # t)) = emit (fs @ [s]) t"
    by (simp add: run_newline parse_save_field_def is_newline_def after_newline_def emit_def
        del: file_lines.simps cong: sum.case_cong)
  then show ?thesis
    using field_start[OF s0 _ False, of "LF # t" fs] by simp
qed

lemma row_then_newline:
  assumes "row \<noteq> []" and "s0 = START_FIELD \<or> (s0 = START_RECORD \<and> row \<noteq> [[]])"
  shows "reader_rows \<lparr>state = s0, field = [], row_fields = fs\<rparr>
           (file_lines (join_fields row @ LF # t)) =
         (if list_all (\<lambda>s. length s \<le> field_limit) row then emit (fs @ row) t else Inl csv_Error)"
  using assms
proof (induction row arbitrary: s0 fs rule: join_fields.induct)
  case 1
  then show ?case by simp
next
  case (2 s)
  then show ?case using field_then_newline[of s0 s fs t] by auto
next
  case (3 s u us)
  have s0: "s0 = START_RECORD \<or> s0 = START_FIELD" using "3.prems" by auto
  have first: "reader_rows \<lparr>state = s0, field = [], row_fields = fs\<rparr>
           (file_lines (join_fields (s # u # us) @ LF # t)) =
        (if length s \<le> field_limit
         then reader_rows \<lparr>state = START_FIELD, field = [], row_fields = fs @ [s]\<rparr>
                (file_lines (join_fields (u # us) @ LF # t))
         else Inl csv_Error)"
    using field_then_delim[OF s0, of "join_fields (u # us) @ LF # t" fs s] by simp
  have rest: "reader_rows \<lparr>state = START_FIELD, field = [], row_fields = fs @ [s]\<rparr>
                (file_lines (join_fields (u # us) @ LF # t)) =
        (if list_all (\<lambda>s. length s \<le> field_limit) (u # us)
         then emit ((fs @ [s]) @ u # us) t else Inl csv_Error)"
    by (rule "3.IH") simp_all
  show ?case unfolding first rest by simp
qed

lemma writerow_lf_read:
  "reader_rows parse_reset (file_lines (writerow_lf row @ t)) =
   (if list_all (\<lambda>s. length s \<le> field_limit) row then emit row t else Inl csv_Error)"
proof -
  consider "row = []" | "row = [[]]" | "row \<noteq> []" "row \<noteq> [[]]" by blast
  then show ?thesis
  proof cases
    case 1
    then show ?thesis
      by (simp add: writerow_lf_def run_newline parse_reset_def emit_def del: file_lines.simps
          cong: sum.case_cong)
  next
    case 2
    then show ?thesis
      by (simp add: writerow_lf_def run_newline run_char parse_reset_def emit_def start_field_def
          is_newline_def after_newline_def parse_save_field_def del: file_lines.simps
          cong: sum.case_cong)
  next
    case 3
    then show ?thesis
      using row_then_newline[of row START_RECORD "[]" t]
      by (simp add: writerow_lf_def parse_reset_def)
  qed
qed

lemma rows_lf_read:
  "reader_rows parse_reset (file_lines (concat (map writerow_lf rows))) =
   (if list_all (list_all (\<lambda>s. length s \<le> field_limit)) rows then Inr rows else Inl csv_Error)"
proof (induction rows)
  case Nil
  then show ?case by (simp add: parse_reset_def)
next
  case (Cons row rows)
  then show ?case using writerow_lf_read[of row "concat (map writerow_lf rows)"]
    by (simp add: emit_def)
qed

lemma un_Cons: "c \<noteq> CR \<Longrightarrow> universal_newlines (c # xs) = c # universal_newlines xs"
  by (cases xs) simp_all

lemma un_append_Cons:
  "c \<noteq> LF \<Longrightarrow> universal_newlines (xs @ c # ys) = universal_newlines xs @ universal_newlines (c # ys)"
proof (induction xs rule: universal_newlines.induct)
  case 1
  then show ?case by simp
next
  case (2 a)
  then show ?case by simp
next
  case (3 a d cs)
  then show ?case by (simp add: un_Cons)
qed

lemma un_CRLF: "universal_newlines (CR # LF # t) = LF # universal_newlines t"
  by simp

lemma needs_quote_un: "needs_quote (universal_newlines s) = needs_quote s"
  by (induction s rule: universal_newlines.induct) (auto simp: needs_quote_def)

lemma un_double_quotes: "universal_newlines (double_quotes s) = double_quotes (universal_newlines s)"
  by (induction s rule: universal_newlines.induct) (auto simp: un_Cons)

lemma un_plain: "list_all plain s \<Longrightarrow> universal_newlines s = s"
  by (induction s rule: universal_newlines.induct) (auto simp: plain_def)

lemma un_join_append:
  assumes "c \<noteq> LF"
  shows "universal_newlines (join_append s @ c # t) =
         join_append (universal_newlines s) @ universal_newlines (c # t)"
proof (cases "needs_quote s")
  case True
  have "universal_newlines (join_append s @ c # t) =
        quotechar # universal_newlines (double_quotes s @ quotechar # c # t)"
    using True by (simp add: join_append_def un_Cons)
  also have "\<dots> = quotechar # double_quotes (universal_newlines s) @ quotechar # universal_newlines (c # t)"
    by (simp add: un_append_Cons un_double_quotes un_Cons)
  finally show ?thesis using True by (simp add: join_append_def needs_quote_un)
next
  case False
  then have "universal_newlines s = s" using not_needs_quote un_plain by blast
  then show ?thesis using False assms by (simp add: join_append_def un_append_Cons needs_quote_un)
qed

lemma un_join_fields:
  assumes "c \<noteq> LF"
  shows "universal_newlines (join_fields row @ c # t) =
         join_fields (map universal_newlines row) @ universal_newlines (c # t)"
proof (induction row rule: join_fields.induct)
  case 1
  then show ?case by simp
next
  case (2 s)
  then show ?case using assms by (simp add: un_join_append)
next
  case (3 s u us)
  have "universal_newlines (join_fields (s # u # us) @ c # t) =
        join_append (universal_newlines s) @ universal_newlines (delimiter # join_fields (u # us) @ c # t)"
    using un_join_append[of delimiter s "join_fields (u # us) @ c # t"] by simp
  then show ?case using 3 by (simp add: un_Cons)
qed

lemma un_Nil_iff: "universal_newlines s = [] \<longleftrightarrow> s = []"
  by (induction s rule: universal_newlines.induct) auto

lemma un_writerow:
  "universal_newlines (writerow row @ t) =
   writerow_lf (map universal_newlines row) @ universal_newlines t"
proof (cases "row = [[]]")
  case True
  then show ?thesis by (simp add: writerow_def writerow_lf_def)
next
  case False
  then have "map universal_newlines row \<noteq> [[]]"
    by (cases row) (auto simp: un_Nil_iff)
  then show ?thesis using False un_join_fields[of CR row "LF # t"]
    by (simp add: writerow_def writerow_lf_def)
qed

lemma un_rows:
  "universal_newlines (concat (map writerow rows)) =
   concat (map writerow_lf (map (map universal_newlines) rows))"
  by (induction rows) (simp_all add: un_writerow)

theorem csv_round_trip:
  "reader_rows parse_reset (file_lines (universal_newlines (concat (map writerow rows)))) =
   (if list_all (list_all within_limit) rows then Inr (map (map universal_newlines) rows)
    else Inl csv_Error)"
proof -
  have "list_all (list_all (\<lambda>s. length s \<le> field_limit)) (map (map universal_newlines) rows) =
        list_all (list_all within_limit) rows"
    by (simp add: list_all_iff within_limit_def)
  then show ?thesis
    using rows_lf_read[of "map (map universal_newlines) rows"] by (simp only: un_rows)
qed

section \<open>Listing a store\<close>

lemma un_REQUIRED_FIELDS: "map universal_newlines REQUIRED_FIELDS = REQUIRED_FIELDS"
  by code_simp

lemma length_un_le: "length (universal_newlines s) \<le> length s"
  by (induction s rule: universal_newlines.induct) auto

lemma short_within_limit: "length s \<le> field_limit \<Longrightarrow> within_limit s"
  using length_un_le[of s] by (simp add: within_limit_def)

lemma REQUIRED_FIELDS_within_limit: "list_all within_limit REQUIRED_FIELDS"
  by (simp add: REQUIRED_FIELDS_def short_within_limit field_limit_def)

lemma DictReader_row_4:
  "DictReader_row REQUIRED_FIELDS [a, b, c, d] = registration a b c d"
  by (simp add: DictReader_row_def dict_zip_def REQUIRED_FIELDS_def registration_def)

lemma DictReader_row_cells:
  "DictReader_row REQUIRED_FIELDS (map universal_newlines (row_cells r)) = as_read r"
  by (cases r) (simp add: row_cells_def as_read_def DictReader_row_4)

lemma row_cells_nonempty: "row_cells r \<noteq> []"
  by (cases r) (simp add: row_cells_def)

lemma store_text:
  "writerow REQUIRED_FIELDS @ concat (map (\<lambda>r. writerow (row_cells r)) rows) =
   concat (map writerow (REQUIRED_FIELDS # map row_cells rows))"
  by (simp add: comp_def)

lemma DictReader_store:
  "DictReader (file_lines (universal_newlines
      (writerow REQUIRED_FIELDS @ concat (map (\<lambda>r. writerow (row_cells r)) rows)))) =
   (if readable rows then Inr (map as_read rows) else Inl csv_Error)"
proof -
  have F: "filter (\<lambda>r. r \<noteq> []) (map (map universal_newlines) (map row_cells rows)) =
           map (map universal_newlines) (map row_cells rows)"
    by (induction rows) (simp_all add: row_cells_nonempty)
  have M: "map (DictReader_row REQUIRED_FIELDS) (map (map universal_newlines) (map row_cells rows)) =
           map as_read rows"
    by (induction rows) (simp_all add: DictReader_row_cells)
  have R: "list_all (list_all within_limit) (REQUIRED_FIELDS # map row_cells rows) = readable rows"
    using REQUIRED_FIELDS_within_limit by (simp add: readable_def list_all_iff)
  show ?thesis
    unfolding store_text DictReader_def csv_round_trip R
    by (simp add: un_REQUIRED_FIELDS F M del: map_map)
qed

lemma get_all_store:
  "get_all_registrations (store_file rows) =
   (if readable rows then Inr \<lparr>success = True, count = None, data = map as_read rows\<rparr>
    else Inl csv_Error, store_file rows)"
  by (simp add: get_all_registrations_def store_file_def os_path_exists_def open_r_read_def
      DictReader_store)

lemma get_all_snd: "snd (get_all_registrations f) = f"
  by (simp add: get_all_registrations_def split: sum.splits)

section \<open>The operations on a store\<close>

lemma getitem_lower_Email: "getitem_lower (as_read r) ''Email'' = Inr (lower (listed_email r))"
  by (cases r) (simp add: getitem_lower_def getitem_def as_read_def registration_def listed_email_def)

lemma getitem_lower_Name: "getitem_lower (as_read r) ''Name'' = Inr (lower (listed_name r))"
  by (cases r) (simp add: getitem_lower_def getitem_def as_read_def registration_def listed_name_def)

lemma any_email_store:
  "any_email email (map as_read rows) = Inr (list_ex (\<lambda>r. lower (listed_email r) = lower email) rows)"
  by (induction rows) (simp_all add: getitem_lower_Email)

lemma matching_rows_store:
  "matching_rows query (map as_read rows) =
   Inr (map as_read (filter (\<lambda>r. sublist query (lower (listed_name r)) \<or>
                                  sublist query (lower (listed_email r))) rows))"
  by (induction rows) (simp_all add: row_matches_def getitem_lower_Email getitem_lower_Name)

lemma email_exists_store:
  "email_exists email (store_file rows) =
   (if readable rows then Inr (list_ex (\<lambda>r. lower (listed_email r) = lower email) rows)
    else Inl csv_Error, store_file rows)"
  by (simp add: email_exists_def get_all_store any_email_store)

lemma email_exists_snd: "snd (email_exists email f) = f"
  using get_all_snd[of f]
  by (cases "get_all_registrations f") (simp add: email_exists_def split: sum.splits)

lemma search_snd: "snd (search_registrations query f) = f"
  using get_all_snd[of f]
  by (cases "get_all_registrations f")
     (simp add: search_registrations_def Let_def split: sum.splits)

lemma append_store:
  "open_a_write (writerow (row_cells r)) (store_file rows) = store_file (rows @ [r])"
  by (simp add: open_a_write_def store_file_def)

lemma add_invalid:
  assumes "\<not> (fst (validate_name V name) \<and> fst (validate_email V email) \<and>
              fst (validate_date_of_birth V dob))"
  shows "add_registration V now name email dob f =
         (Inr (ValidationFailed [snd (validate_name V name), snd (validate_email V email),
                                 snd (validate_date_of_birth V dob)]), f)"
  using assms by (auto simp add: add_registration_def ValidationFailed_def split: prod.splits)

lemma add_valid:
  assumes "fst (validate_name V name)" "fst (validate_email V email)"
    "fst (validate_date_of_birth V dob)"
  shows "add_registration V now name email dob f =
         (case email_exists email f of
            (Inl e, f1) \<Rightarrow> (Inl e, f1)
          | (Inr True, f1) \<Rightarrow> (Inr DuplicateEmail, f1)
          | (Inr False, f1) \<Rightarrow>
              (Inr (Registered (''Registered '' @ name) (registration name email dob (strftime now))),
               open_a_write (writerow [strip name, strip email, dob, strftime now]) f1))"
  using assms
  by (auto simp add: add_registration_def DuplicateEmail_def Let_def
      split: prod.splits sum.splits bool.splits)

lemma add_store_unreadable:
  assumes "fst (validate_name V name)" "fst (validate_email V email)"
    "fst (validate_date_of_birth V dob)"
    and "\<not> readable rows"
  shows "add_registration V now name email dob (store_file rows) = (Inl csv_Error, store_file rows)"
  using assms(4) by (simp add: add_valid[OF assms(1-3)] email_exists_store)

lemma add_store_duplicate:
  assumes "fst (validate_name V name)" "fst (validate_email V email)"
    "fst (validate_date_of_birth V dob)"
    and "readable rows"
    and "list_ex (\<lambda>r. lower (listed_email r) = lower email) rows"
  shows "add_registration V now name email dob (store_file rows) =
         (Inr DuplicateEmail, store_file rows)"
  using assms(4,5) by (simp add: add_valid[OF assms(1-3)] email_exists_store)

lemma add_store_new:
  assumes "fst (validate_name V name)" "fst (validate_email V email)"
    "fst (validate_date_of_birth V dob)"
    and "readable rows"
    and "\<not> list_ex (\<lambda>r. lower (listed_email r) = lower email) rows"
  shows "add_registration V now name email dob (store_file rows) =
         (Inr (Registered (''Registered '' @ name) (registration name email dob (strftime now))),
          store_file (rows @ [(strip name, strip email, dob, strftime now)]))"
  using assms(4,5) append_store[of "(strip name, strip email, dob, strftime now)" rows]
  by (simp add: add_valid[OF assms(1-3)] email_exists_store row_cells_def)

lemma search_store:
  "search_registrations query (store_file rows) =
   (if readable rows
    then Inr \<lparr>success = True,
              count = Some (length (filter (\<lambda>r. sublist (strip (lower query)) (lower (listed_name r)) \<or>
                                              sublist (strip (lower query)) (lower (listed_email r))) rows)),
              data = map as_read (filter (\<lambda>r. sublist (strip (lower query)) (lower (listed_name r)) \<or>
                                              sublist (strip (lower query)) (lower (listed_email r))) rows)\<rparr>
    else Inl csv_Error, store_file rows)"
  by (simp add: search_registrations_def get_all_store matching_rows_store Let_def)

section \<open>The timestamp\<close>





lemma length_strftime: "length (strftime t) = 19"
  by (simp add: strftime_def pad2_def pad4_def)



section \<open>Trimming, case and newlines\<close>


lemma strip_edges:
  assumes "strip s \<noteq> []"
  shows "\<not> isspace (hd (strip s))" and "\<not> isspace (last (strip s))"
proof -
  let ?X = "dropWhile isspace s"
  let ?Y = "dropWhile isspace (rev ?X)"
  have Y: "?Y \<noteq> []" using assms by (simp add: strip_def)
  then have "\<not> isspace (hd ?Y)" by (rule hd_dropWhile)
  then show "\<not> isspace (last (strip s))" using Y by (simp add: strip_def last_rev)
  have "rev ?X = takeWhile isspace (rev ?X) @ ?Y" by simp
  then have "?X = rev ?Y @ rev (takeWhile isspace (rev ?X))"
    by (metis rev_append rev_rev_ident)
  then have "hd ?X = hd (rev ?Y)" using Y by (metis hd_append2 rev_is_Nil_conv)
  moreover have "?X \<noteq> []" using Y by (cases "?X") auto
  then have "\<not> isspace (hd ?X)" by (rule hd_dropWhile)
  ultimately show "\<not> isspace (hd (strip s))" by (simp add: strip_def)
qed

lemma strip_id_iff:
  "strip s = s \<longleftrightarrow> s = [] \<or> (\<not> isspace (hd s) \<and> \<not> isspace (last s))"
proof
  assume "strip s = s"
  then show "s = [] \<or> (\<not> isspace (hd s) \<and> \<not> isspace (last s))"
    using strip_edges[of s] by auto
next
  assume R: "s = [] \<or> (\<not> isspace (hd s) \<and> \<not> isspace (last s))"
  show "strip s = s"
  proof (cases "s = []")
    case True
    then show ?thesis by (simp add: strip_def)
  next
    case False
    then have 1: "dropWhile isspace s = s" using R by (cases s) auto
    have "rev s \<noteq> []" "\<not> isspace (hd (rev s))" using False R by (simp_all add: hd_rev)
    then have 2: "dropWhile isspace (rev s) = rev s" by (cases "rev s") auto
    show ?thesis by (simp add: strip_def 1 2)
  qed
qed

lemma strip_strip: "strip (strip s) = strip s"
  using strip_edges[of s] by (auto simp add: strip_id_iff[of "strip s"])

lemma isspace_lower_char: "isspace (lower_char c) = isspace c"
  by (auto simp add: isspace_def lower_char_def Let_def)

lemma strip_lower_iff: "strip (lower s) = lower s \<longleftrightarrow> strip s = s"
  by (cases "s = []") (simp_all add: strip_id_iff lower_def hd_map last_map isspace_lower_char)

lemma isspace_CR_LF: "isspace CR" "isspace LF"
  by (simp_all add: isspace_def)

lemma strip_un:
  assumes "strip b = b"
  shows "strip (universal_newlines b) = universal_newlines b"
proof (cases "b = []")
  case True
  then show ?thesis by (simp add: strip_def)
next
  case False
  then have e: "\<not> isspace (hd b)" "\<not> isspace (last b)" using assms strip_id_iff[of b] by auto
  obtain c xs where b: "b = c # xs" using False by (cases b) auto
  then have "c \<noteq> CR" using e(1) isspace_CR_LF by auto
  then have h: "hd (universal_newlines b) = hd b" "universal_newlines b \<noteq> []"
    using b by (simp_all add: un_Cons)
  obtain ys d where b': "b = ys @ [d]" using False by (metis rev_exhaust)
  then have d: "d \<noteq> CR" "d \<noteq> LF" using e(2) isspace_CR_LF by auto
  then have "universal_newlines b = universal_newlines ys @ [d]"
    using b' un_append_Cons[of d ys "[]"] by simp
  then have l: "last (universal_newlines b) = last b" using b' by simp
  show ?thesis using h l e by (simp add: strip_id_iff)
qed

lemma padded_email_differs:
  assumes "strip b = b" and "strip e \<noteq> e"
  shows "lower (universal_newlines b) \<noteq> lower e"
proof
  assume eq: "lower (universal_newlines b) = lower e"
  have "strip (lower (universal_newlines b)) = lower (universal_newlines b)"
    using strip_un[OF assms(1)] by (simp add: strip_lower_iff)
  then have "strip e = e" using eq by (simp add: strip_lower_iff)
  then show False using assms(2) by simp
qed

lemma CR_notin_un: "CR \<notin> set (universal_newlines s)"
  by (induction s rule: universal_newlines.induct) auto

lemma lower_char_CR: "lower_char c = CR \<longleftrightarrow> c = CR"
proof -
  have "of_char (lower_char c) = (13::nat) \<longleftrightarrow> of_char c = (13::nat)"
    by (auto simp add: lower_char_def Let_def)
  then have "(of_char (lower_char c) :: nat) = of_char CR \<longleftrightarrow> (of_char c :: nat) = of_char CR"
    by simp
  then show ?thesis by (simp only: of_char_eq_iff)
qed

lemma CR_in_lower: "CR \<in> set (lower s) \<longleftrightarrow> CR \<in> set s"
proof (induction s)
  case Nil
  then show ?case by (simp add: lower_def)
next
  case (Cons c s)
  have "lower_char c = CR \<longleftrightarrow> c = CR" by (rule lower_char_CR)
  then have "CR = lower_char c \<longleftrightarrow> CR = c" by (simp add: eq_commute)
  then show ?case using Cons by (simp add: lower_def)
qed

lemma un_no_CR: "CR \<notin> set s \<Longrightarrow> universal_newlines s = s"
  by (induction s rule: universal_newlines.induct) auto

lemma un_of_match:
  assumes "lower (universal_newlines b) = lower e"
  shows "universal_newlines e = e"
proof -
  have "CR \<notin> set (lower (universal_newlines b))" using CR_notin_un by (simp add: CR_in_lower)
  then have "CR \<notin> set e" using assms by (simp add: CR_in_lower)
  then show ?thesis by (rule un_no_CR)
qed


section \<open>The file along a run of calls\<close>

lemma init_None: "init None = store_file []"
  by (simp add: init_def ensure_csv_exists_def os_path_exists_def open_w_write_def store_file_def)

lemma init_Some: "init (Some text) = Some text"
  by (simp add: init_def ensure_csv_exists_def os_path_exists_def)

lemma init_store: "init (store_file rows) = store_file rows"
  by (simp add: store_file_def init_Some)

lemma header_line_written: "writerow REQUIRED_FIELDS = header_line"
  by code_simp

lemma add_store_cases:
  "add_registration V now name email dob (store_file rows) =
     (if \<not> (fst (validate_name V name) \<and> fst (validate_email V email) \<and>
              fst (validate_date_of_birth V dob))
      then (Inr (ValidationFailed [snd (validate_name V name), snd (validate_email V email),
                                   snd (validate_date_of_birth V dob)]), store_file rows)
      else if \<not> readable rows then (Inl csv_Error, store_file rows)
      else if list_ex (\<lambda>r. lower (listed_email r) = lower email) rows
      then (Inr DuplicateEmail, store_file rows)
      else (Inr (Registered (''Registered '' @ name) (registration name email dob (strftime now))),
            store_file (rows @ [written (name, email, dob, now)])))"
  using add_invalid[of V name email dob now "store_file rows"]
    add_store_unreadable[of V name email dob rows now]
    add_store_duplicate[of V name email dob rows now]
    add_store_new[of V name email dob rows now]
  by (auto simp add: written_def)

lemma perform_store:
  "\<exists>more. perform c (store_file (map written entries)) = store_file (map written (entries @ more))"
proof (cases c)
  case Construct
  then show ?thesis by (intro exI[of _ "[]"]) (simp add: init_store)
next
  case (Add V now name email dob)
  show ?thesis
  proof (cases "snd (add_registration V now name email dob (store_file (map written entries))) =
                store_file (map written entries)")
    case True
    then show ?thesis using Add by (intro exI[of _ "[]"]) simp
  next
    case False
    then have "snd (add_registration V now name email dob (store_file (map written entries))) =
               store_file (map written entries @ [written (name, email, dob, now)])"
      by (simp add: add_store_cases split: if_splits)
    then show ?thesis using Add by (intro exI[of _ "[(name, email, dob, now)]"]) simp
  qed
next
  case ListAll
  then show ?thesis by (intro exI[of _ "[]"]) (simp add: get_all_snd)
next
  case (Search query)
  then show ?thesis by (intro exI[of _ "[]"]) (simp add: search_snd)
next
  case (EmailExists email)
  then show ?thesis by (intro exI[of _ "[]"]) (simp add: email_exists_snd)
qed

lemma fold_perform_store:
  "\<exists>more. fold perform calls (store_file (map written entries)) =
           store_file (map written (entries @ more))"
proof (induction calls arbitrary: entries)
  case Nil
  then show ?case by (intro exI[of _ "[]"]) simp
next
  case (Cons c calls)
  obtain m1 where 1: "perform c (store_file (map written entries)) =
      store_file (map written (entries @ m1))"
    using perform_store by blast
  obtain m2 where 2: "fold perform calls (store_file (map written (entries @ m1))) =
      store_file (map written ((entries @ m1) @ m2))"
    using Cons.IH by blast
  show ?case using 1 2 by (intro exI[of _ "m1 @ m2"]) simp
qed

lemma reachable_store:
  "\<exists>entries. fold perform calls (init None) = store_file (map written entries)"
  using fold_perform_store[of calls "[]"] by (simp add: init_None)

lemma written_text:
  "(\<lambda>r. writerow (row_cells r)) \<circ> written =
   (\<lambda>(name, email, dob, now). writerow [strip name, strip email, dob, strftime now])"
  by (rule ext) (simp add: written_def row_cells_def split: prod.splits)

section \<open>Short fields and a long one\<close>

lemma strftime_within_limit: "within_limit (strftime t)"
  by (rule short_within_limit) (simp add: length_strftime field_limit_def)

lemma readable_Nil: "readable []"
  by (simp add: readable_def)

lemma readable_append:
  "readable (rows @ [(a, b, c, d)]) \<longleftrightarrow>
   readable rows \<and> within_limit a \<and> within_limit b \<and> within_limit c \<and> within_limit d"
  by (simp add: readable_def row_cells_def)

lemma readable_john: "readable [john]"
  by (simp add: readable_def row_cells_def john_def short_within_limit field_limit_def)

lemma readable_john_jane: "readable [john, jane]"
  by (simp add: readable_def row_cells_def john_def jane_def short_within_limit field_limit_def)

lemma long_name_no_CR: "universal_newlines long_name = long_name"
  by (rule un_no_CR) (simp add: long_name_def)

lemma long_name_beyond_limit: "\<not> within_limit long_name"
  by (simp add: within_limit_def long_name_no_CR) (simp add: long_name_def)

lemma long_row_unreadable: "\<not> readable [long_row]"
  using long_name_beyond_limit by (simp add: readable_def long_row_def row_cells_def)

lemma isspace_a: "\<not> isspace (CHR ''a'')"
  by code_simp

lemma name_char_a: "name_char (CHR ''a'')"
  by code_simp

lemma strip_long_name: "strip long_name = long_name"
  by (simp add: strip_id_iff long_name_def isspace_a del: replicate_Suc)

lemma long_name_valid: "fst (validate_name (spec_validator t) long_name)"
proof -
  have "long_name \<noteq> []" by (simp add: long_name_def)
  moreover have "\<not> length long_name < MIN_NAME_LENGTH"
    by (simp add: long_name_def MIN_NAME_LENGTH_def field_limit_def)
  moreover have "list_all name_char long_name"
    by (simp add: long_name_def name_char_a list_all_iff)
  ultimately show ?thesis
    by (simp add: spec_validator_def spec_validate_name_def strip_long_name)
qed

section \<open>Concrete runs\<close>

lemma strftime_noon: "strftime noon = ''2024-03-09 12:00:00''"
  by code_simp

lemma add_john:
  "add_registration (spec_validator noon) noon '' John Doe'' ''john@x.com'' ''1990-01-15'' (store_file []) =
     (Inr (Registered ''Registered  John Doe''
            (registration '' John Doe'' ''john@x.com'' ''1990-01-15'' ''2024-03-09 12:00:00'')),
      store_file [john])"
proof -
  have 1: "fst (validate_name (spec_validator noon) '' John Doe'')" by code_simp
  have 2: "fst (validate_email (spec_validator noon) ''john@x.com'')" by code_simp
  have 3: "fst (validate_date_of_birth (spec_validator noon) ''1990-01-15'')" by code_simp
  have 4: "\<not> list_ex (\<lambda>r. lower (listed_email r) = lower ''john@x.com'') []" by simp
  have s: "strip '' John Doe'' = ''John Doe''" "strip ''john@x.com'' = ''john@x.com''"
    by code_simp+
  show ?thesis
    using add_store_new[OF 1 2 3 readable_Nil 4, where now = noon]
    by (simp add: s strftime_noon john_def)
qed

lemma add_long_name:
  "add_registration (spec_validator noon) noon long_name ''john@example.com'' ''1990-01-15'' (store_file []) =
     (Inr (Registered (''Registered '' @ long_name)
            (registration long_name ''john@example.com'' ''1990-01-15'' ''2024-03-09 12:00:00'')),
      store_file [long_row])"
proof -
  have 2: "fst (validate_email (spec_validator noon) ''john@example.com'')" by code_simp
  have 3: "fst (validate_date_of_birth (spec_validator noon) ''1990-01-15'')" by code_simp
  have 4: "\<not> list_ex (\<lambda>r. lower (listed_email r) = lower ''john@example.com'') []" by simp
  have s: "strip ''john@example.com'' = ''john@example.com''" by code_simp
  show ?thesis
    using add_store_new[OF long_name_valid[of noon] 2 3 readable_Nil 4, where now = noon]
    by (simp add: s strip_long_name strftime_noon long_row_def)
qed



section \<open>Adding a registration\<close>

text \<open>
  Claim C1. When at least one of the three validations fails, \<open>add_registration\<close> returns
  the validation failure with the messages of all three validators, those of every failing
  one among them, and the file is what it was: nothing is written.
\<close>

theorem add_validation_failed:
  assumes "\<not> (fst (validate_name V name) \<and> fst (validate_email V email) \<and>
              fst (validate_date_of_birth V dob))"
  shows "add_registration V now name email dob f =
         (Inr (ValidationFailed [snd (validate_name V name), snd (validate_email V email),
                                 snd (validate_date_of_birth V dob)]), f)"
  using assms by (rule add_invalid)

theorem add_validation_failed_witness:
  "\<not> (fst (validate_name (spec_validator noon) ''J'') \<and>
      fst (validate_email (spec_validator noon) ''john.example.com'') \<and>
      fst (validate_date_of_birth (spec_validator noon) ''15-01-1990'')) \<and>
   add_registration (spec_validator noon) noon ''J'' ''john.example.com'' ''15-01-1990'' (store_file [john]) =
     (Inr (ValidationFailed [''InvalidName: too short'', ''InvalidEmail'', ''InvalidDateFormat'']),
      store_file [john])"
proof -
  have h: "\<not> (fst (validate_name (spec_validator noon) ''J'') \<and>
      fst (validate_email (spec_validator noon) ''john.example.com'') \<and>
      fst (validate_date_of_birth (spec_validator noon) ''15-01-1990''))"
    by code_simp
  have m: "[snd (validate_name (spec_validator noon) ''J''),
            snd (validate_email (spec_validator noon) ''john.example.com''),
            snd (validate_date_of_birth (spec_validator noon) ''15-01-1990'')] =
           [''InvalidName: too short'', ''InvalidEmail'', ''InvalidDateFormat'']"
    by code_simp
  show ?thesis
    using h add_validation_failed[OF h, where now = noon and f = "store_file [john]"] unfolding m by (rule conjI)
qed

text \<open>
  Claim C5. Validation comes before the duplicate check: when the input fails validation
  and its email also duplicates a stored record (\<open>email_exists\<close> answers true), the result
  is the validation failure, not \<open>DuplicateEmail\<close>, and the file is unchanged.
\<close>

theorem validation_before_duplicate:
  assumes "\<not> (fst (validate_name V name) \<and> fst (validate_email V email) \<and>
              fst (validate_date_of_birth V dob))"
    and "email_exists email f = (Inr True, f)"
  shows "add_registration V now name email dob f =
           (Inr (ValidationFailed [snd (validate_name V name), snd (validate_email V email),
                                   snd (validate_date_of_birth V dob)]), f) \<and>
         fst (add_registration V now name email dob f) \<noteq> Inr DuplicateEmail"
  using add_invalid[OF assms(1)] by (simp add: ValidationFailed_def DuplicateEmail_def)

theorem validation_before_duplicate_witness:
  "\<not> (fst (validate_name (spec_validator noon) ''J'') \<and>
      fst (validate_email (spec_validator noon) ''JOHN@X.COM'') \<and>
      fst (validate_date_of_birth (spec_validator noon) ''1990-01-15'')) \<and>
   email_exists ''JOHN@X.COM'' (store_file [john]) = (Inr True, store_file [john]) \<and>
   add_registration (spec_validator noon) noon ''J'' ''JOHN@X.COM'' ''1990-01-15'' (store_file [john]) =
     (Inr (ValidationFailed [''InvalidName: too short'', ''ok'', ''ok'']), store_file [john]) \<and>
   fst (add_registration (spec_validator noon) noon ''J'' ''JOHN@X.COM'' ''1990-01-15'' (store_file [john]))
     \<noteq> Inr DuplicateEmail"
proof -
  have h: "\<not> (fst (validate_name (spec_validator noon) ''J'') \<and>
      fst (validate_email (spec_validator noon) ''JOHN@X.COM'') \<and>
      fst (validate_date_of_birth (spec_validator noon) ''1990-01-15''))"
    by code_simp
  have "list_ex (\<lambda>r. lower (listed_email r) = lower ''JOHN@X.COM'') [john]" by code_simp
  then have d: "email_exists ''JOHN@X.COM'' (store_file [john]) = (Inr True, store_file [john])"
    using readable_john by (simp add: email_exists_store)
  have m: "[snd (validate_name (spec_validator noon) ''J''),
            snd (validate_email (spec_validator noon) ''JOHN@X.COM''),
            snd (validate_date_of_birth (spec_validator noon) ''1990-01-15'')] =
           [''InvalidName: too short'', ''ok'', ''ok'']"
    by code_simp
  show ?thesis
    using h d validation_before_duplicate[OF h d, where now = noon] unfolding m by blast
qed




text \<open>
  Claim C7. Listing an empty store succeeds with no records: when the file is absent
  (\<open>count\<close> is then 0), and when the store was just constructed and holds the header only.
\<close>

theorem list_empty_store:
  assumes "f = None \<or> f = init None \<or> f = store_file []"
  shows "get_all_registrations f =
         (Inr \<lparr>success = True, count = (if f = None then Some 0 else None), data = []\<rparr>, f)"
proof -
  have "get_all_registrations None =
      (Inr \<lparr>success = True, count = Some 0, data = []\<rparr>, None)"
    by (simp add: get_all_registrations_def os_path_exists_def)
  moreover have "store_file [] \<noteq> None" by (simp add: store_file_def)
  moreover have "get_all_registrations (store_file []) =
      (Inr \<lparr>success = True, count = None, data = []\<rparr>, store_file [])"
    by (simp add: get_all_store readable_Nil)
  ultimately show ?thesis using assms init_None by auto
qed

theorem list_empty_store_witness:
  "get_all_registrations None = (Inr \<lparr>success = True, count = Some 0, data = []\<rparr>, None) \<and>
   get_all_registrations (init None) =
     (Inr \<lparr>success = True, count = None, data = []\<rparr>, init None)"
proof -
  have absent: "get_all_registrations None =
      (Inr \<lparr>success = True, count = Some 0, data = []\<rparr>, None)"
    using list_empty_store[of None] by simp
  have "init None \<noteq> None"
    by (simp add: init_def ensure_csv_exists_def os_path_exists_def open_w_write_def)
  then have fresh: "get_all_registrations (init None) =
      (Inr \<lparr>success = True, count = None, data = []\<rparr>, init None)"
    using list_empty_store[of "init None"] by simp
  show ?thesis using absent fresh by (rule conjI)
qed

text \<open>
  Claim C9. Listing is read-only: the file after \<open>get_all_registrations\<close> is the file
  before, and a second listing right after the first returns the same result and file.
\<close>

theorem list_read_only:
  "snd (get_all_registrations f) = f \<and>
   get_all_registrations (snd (get_all_registrations f)) = get_all_registrations f"
proof -
  have "snd (get_all_registrations f) = f"
    by (simp add: get_all_registrations_def split: sum.splits)
  then show ?thesis by simp
qed

theorem list_read_only_witness:
  "snd (get_all_registrations (store_file [john, jane])) = store_file [john, jane] \<and>
   get_all_registrations (snd (get_all_registrations (store_file [john, jane]))) =
     get_all_registrations (store_file [john, jane])"
  by (rule list_read_only)







section \<open>Searching\<close>

text \<open>
  Claim C6, as stated, fails twice. For a query with surrounding whitespace: \<open>John Doe\<close>
  does not contain the query \<open>doe\<close> followed by a space, so the search as the
  specification words it finds nothing, while \<open>search_registrations\<close> trims the query and
  returns the record. And over a store that holds a name of 131073 letters, written by a
  successful addition, the search returns no records and no count: it ends in \<open>csv.Error\<close>.
\<close>

theorem search_counterexample:
  "search_registrations ''doe '' (store_file [john, jane]) =
     (Inr \<lparr>success = True, count = Some 1, data = [as_read john]\<rparr>, store_file [john, jane]) \<and>
   get_all_registrations (store_file [john, jane]) =
     (Inr \<lparr>success = True, count = None, data = [as_read john, as_read jane]\<rparr>, store_file [john, jane]) \<and>
   spec_search ''doe '' [john, jane] = [] \<and>
   add_registration (spec_validator noon) noon long_name ''john@example.com'' ''1990-01-15'' (init None) =
     (Inr (Registered (''Registered '' @ long_name)
            (registration long_name ''john@example.com'' ''1990-01-15'' ''2024-03-09 12:00:00'')),
      store_file [long_row]) \<and>
   search_registrations ''doe'' (store_file [long_row]) = (Inl csv_Error, store_file [long_row])"
proof -
  have f: "filter (\<lambda>r. sublist (strip (lower ''doe '')) (lower (listed_name r)) \<or>
                       sublist (strip (lower ''doe '')) (lower (listed_email r))) [john, jane] = [john]"
    by code_simp
  have 1: "search_registrations ''doe '' (store_file [john, jane]) =
     (Inr \<lparr>success = True, count = Some 1, data = [as_read john]\<rparr>, store_file [john, jane])"
    using search_store[of "''doe ''" "[john, jane]", unfolded f] readable_john_jane by simp
  have 2: "get_all_registrations (store_file [john, jane]) =
     (Inr \<lparr>success = True, count = None, data = [as_read john, as_read jane]\<rparr>, store_file [john, jane])"
    using readable_john_jane by (simp add: get_all_store)
  have 3: "spec_search ''doe '' [john, jane] = []" by code_simp
  have 5: "search_registrations ''doe'' (store_file [long_row]) = (Inl csv_Error, store_file [long_row])"
    using long_row_unreadable by (simp add: search_store)
  show ?thesis
    unfolding init_None using 1 2 3 add_long_name 5 by blast
qed

text \<open>
  Claim C6, amended. On a store holding \<open>rows\<close>, none of whose fields is beyond the reader's
  limit of 131072 characters, \<open>search_registrations\<close> returns exactly the listed records
  whose lowercased name or lowercased email contains the query, once lowercased and trimmed
  of surrounding whitespace; they come in file order, and \<open>count\<close> is their number. The
  second conjunct recalls the listing they are taken from. Searching \<open>doe\<close> in a store with
  John Doe and Jane Roe returns the first record only, count 1.
\<close>

theorem search_trimmed_query:
  assumes "readable rows"
  shows "search_registrations query (store_file rows) =
     (Inr \<lparr>success = True,
           count = Some (length (filter (\<lambda>r. sublist (strip (lower query)) (lower (listed_name r)) \<or>
                                           sublist (strip (lower query)) (lower (listed_email r))) rows)),
           data = map as_read (filter (\<lambda>r. sublist (strip (lower query)) (lower (listed_name r)) \<or>
                                           sublist (strip (lower query)) (lower (listed_email r))) rows)\<rparr>,
      store_file rows) \<and>
   get_all_registrations (store_file rows) =
     (Inr \<lparr>success = True, count = None, data = map as_read rows\<rparr>, store_file rows)"
  using assms by (simp add: search_store get_all_store)

theorem search_trimmed_query_witness:
  "readable [john, jane] \<and>
   search_registrations ''doe'' (store_file [john, jane]) =
     (Inr \<lparr>success = True, count = Some 1, data = [as_read john]\<rparr>, store_file [john, jane])"
proof -
  have f: "filter (\<lambda>r. sublist (strip (lower ''doe'')) (lower (listed_name r)) \<or>
                       sublist (strip (lower ''doe'')) (lower (listed_email r))) [john, jane] = [john]"
    by code_simp
  have "search_registrations ''doe'' (store_file [john, jane]) =
     (Inr \<lparr>success = True, count = Some 1, data = [as_read john]\<rparr>, store_file [john, jane])"
    using search_trimmed_query[OF readable_john_jane, of "''doe''", unfolded f] by simp
  with readable_john_jane show ?thesis by (rule conjI)
qed

section \<open>The header\<close>

text \<open>
  Claim C8. Whatever calls follow the construction of a store on an absent file (further
  constructions, additions, listings, searches, duplicate checks), the file is the header
  line \<open>Name,Email,Date_of_Birth,Registration_Date\<close> followed by the rows that successful
  additions wrote, each after the header. Construction writes the header when the file is
  absent and leaves an existing file as it is.
\<close>

theorem header_first:
  "(\<exists>entries. fold perform calls (init None) =
      Some (header_line @
            concat (map (\<lambda>(name, email, dob, now). writerow [strip name, strip email, dob, strftime now])
                      entries))) \<and>
   init None = Some header_line \<and>
   init (Some text) = Some text"
proof -
  obtain entries where "fold perform calls (init None) = store_file (map written entries)"
    using reachable_store by blast
  then have "fold perform calls (init None) =
      Some (header_line @
            concat (map (\<lambda>(name, email, dob, now). writerow [strip name, strip email, dob, strftime now])
                      entries))"
    by (simp add: store_file_def header_line_written written_text)
  moreover have "init None = Some header_line"
    by (simp add: init_None store_file_def header_line_written)
  ultimately show ?thesis using init_Some by blast
qed

theorem header_first_witness:
  "((\<exists>entries.
       fold perform
         [Construct, Add (spec_validator noon) noon '' John Doe'' ''john@x.com'' ''1990-01-15'',
          ListAll, Search ''doe'', Construct,
          Add (spec_validator noon) noon ''Johnny'' ''JOHN@X.COM'' ''1990-01-15'',
          Add (spec_validator noon) noon ''J'' ''j@x.com'' ''1990-01-15'']
         (init None) =
       Some (header_line @
             concat (map (\<lambda>(name, email, dob, now). writerow [strip name, strip email, dob, strftime now])
                       entries))) \<and>
    init None = Some header_line \<and>
    init (Some ''Name'') = Some ''Name'') \<and>
   fold perform
     [Construct, Add (spec_validator noon) noon '' John Doe'' ''john@x.com'' ''1990-01-15'',
      ListAll, Search ''doe'', Construct,
      Add (spec_validator noon) noon ''Johnny'' ''JOHN@X.COM'' ''1990-01-15'',
      Add (spec_validator noon) noon ''J'' ''j@x.com'' ''1990-01-15'']
     (init None) =
   Some (''Name,Email,Date_of_Birth,Registration_Date'' @ [CR, LF] @
         ''John Doe,john@x.com,1990-01-15,2024-03-09 12:00:00'' @ [CR, LF])"
proof (rule conjI)
  have dup: "add_registration (spec_validator noon) noon ''Johnny'' ''JOHN@X.COM'' ''1990-01-15''
      (store_file [john]) = (Inr DuplicateEmail, store_file [john])"
  proof -
    have 1: "fst (validate_name (spec_validator noon) ''Johnny'')" by code_simp
    have 2: "fst (validate_email (spec_validator noon) ''JOHN@X.COM'')" by code_simp
    have 3: "fst (validate_date_of_birth (spec_validator noon) ''1990-01-15'')" by code_simp
    have 4: "list_ex (\<lambda>r. lower (listed_email r) = lower ''JOHN@X.COM'') [john]" by code_simp
    show ?thesis by (rule add_store_duplicate[OF 1 2 3 readable_john 4])
  qed
  have bad: "add_registration (spec_validator noon) noon ''J'' ''j@x.com'' ''1990-01-15''
      (store_file [john]) =
      (Inr (ValidationFailed [snd (validate_name (spec_validator noon) ''J''),
                              snd (validate_email (spec_validator noon) ''j@x.com''),
                              snd (validate_date_of_birth (spec_validator noon) ''1990-01-15'')]),
       store_file [john])"
  proof (rule add_invalid)
    show "\<not> (fst (validate_name (spec_validator noon) ''J'') \<and>
              fst (validate_email (spec_validator noon) ''j@x.com'') \<and>
              fst (validate_date_of_birth (spec_validator noon) ''1990-01-15''))"
      by code_simp
  qed
  have content: "store_file [john] =
      Some (''Name,Email,Date_of_Birth,Registration_Date'' @ [CR, LF] @
            ''John Doe,john@x.com,1990-01-15,2024-03-09 12:00:00'' @ [CR, LF])"
    by code_simp
  show "fold perform
     [Construct, Add (spec_validator noon) noon '' John Doe'' ''john@x.com'' ''1990-01-15'',
      ListAll, Search ''doe'', Construct,
      Add (spec_validator noon) noon ''Johnny'' ''JOHN@X.COM'' ''1990-01-15'',
      Add (spec_validator noon) noon ''J'' ''j@x.com'' ''1990-01-15'']
     (init None) =
   Some (''Name,Email,Date_of_Birth,Registration_Date'' @ [CR, LF] @
         ''John Doe,john@x.com,1990-01-15,2024-03-09 12:00:00'' @ [CR, LF])"
    unfolding content[symmetric]
    by (simp add: init_None init_store add_john get_all_snd search_snd dup bad)
qed (rule header_first)

section \<open>Whitespace around an email\<close>

lemma listed_email_written: "listed_email (written (name, email, dob, now)) = universal_newlines (strip email)"
  by (simp add: listed_email_def written_def)

lemma padded_not_listed:
  assumes "strip email \<noteq> email"
  shows "\<not> list_ex (\<lambda>r. lower (listed_email r) = lower email) (map written entries)"
proof -
  have "lower (listed_email (written e)) \<noteq> lower email" for e
  proof -
    obtain n m d t where e: "e = (n, m, d, t)" by (cases e) auto
    show ?thesis
      unfolding e listed_email_written
      by (rule padded_email_differs[OF strip_strip assms])
  qed
  then show ?thesis by (simp add: list_ex_iff)
qed

lemma emails_of_listing:
  "map (\<lambda>r. getitem_lower r ''Email'') (map as_read rows) =
   map (\<lambda>r. Inr (lower (listed_email r))) rows"
  by (simp add: getitem_lower_Email)

lemma listed_email_within_limit:
  assumes "readable rows" and "r \<in> set rows"
  shows "length (listed_email r) \<le> field_limit"
proof -
  obtain a b c d where r: "r = (a, b, c, d)" by (cases r) auto
  have "list_all within_limit (row_cells r)"
    using assms by (simp add: readable_def list_all_iff)
  then show ?thesis by (simp add: r row_cells_def listed_email_def within_limit_def)
qed

lemma length_lower: "length (lower s) = length s"
  by (simp add: lower_def)

text \<open>
  Claim C10. In a store reached from an absent file by any calls, take an email with
  surrounding whitespace whose trimmed form \<open>email_exists\<close> finds. For the email as
  supplied \<open>email_exists\<close> answers false; with passing validations \<open>add_registration\<close>
  succeeds and appends a row whose email, the trimmed one, equals that of a row already
  there up to letter case. When the trimmed name and the date of birth are within the
  reader's limit, the listing afterwards ends in a record with the trimmed email, and two
  listed records have the same email up to letter case.
\<close>

theorem padded_email_passes_duplicate_check:
  assumes "f = fold perform calls (init None)"
    and "fst (validate_name V name)" and "fst (validate_email V email)"
    and "fst (validate_date_of_birth V dob)"
    and "strip email \<noteq> email"
    and "email_exists (strip email) f = (Inr True, f)"
  shows "email_exists email f = (Inr False, f) \<and>
         fst (add_registration V now name email dob f) =
           Inr (Registered (''Registered '' @ name) (registration name email dob (strftime now))) \<and>
         (\<exists>rows. f = store_file rows \<and>
                 snd (add_registration V now name email dob f) =
                   store_file (rows @ [(strip name, strip email, dob, strftime now)]) \<and>
                 list_ex (\<lambda>r. lower (listed_email r) =
                               lower (listed_email (strip name, strip email, dob, strftime now))) rows) \<and>
         (within_limit (strip name) \<and> within_limit dob \<longrightarrow>
           (\<exists>res. get_all_registrations (snd (add_registration V now name email dob f)) =
                    (Inr res, snd (add_registration V now name email dob f)) \<and>
                  getitem (last (data res)) ''Email'' = Inr (Str (strip email)) \<and>
                  \<not> distinct (map (\<lambda>r. getitem_lower r ''Email'') (data res))))"
proof -
  obtain entries where f: "f = store_file (map written entries)"
    using assms(1) reachable_store by blast
  let ?rows = "map written entries"
  let ?new = "(strip name, strip email, dob, strftime now)"
  have found: "readable ?rows \<and> list_ex (\<lambda>r. lower (listed_email r) = lower (strip email)) ?rows"
    using assms(6) by (simp add: f email_exists_store split: if_splits)
  then have ok: "readable ?rows" by simp
  have fresh: "\<not> list_ex (\<lambda>r. lower (listed_email r) = lower email) ?rows"
    by (rule padded_not_listed[OF assms(5)])
  have 1: "email_exists email f = (Inr False, f)"
    using fresh ok by (simp add: f email_exists_store)
  have add: "add_registration V now name email dob f =
      (Inr (Registered (''Registered '' @ name) (registration name email dob (strftime now))),
       store_file (?rows @ [?new]))"
    unfolding f by (rule add_store_new[OF assms(2-4) ok fresh])
  have "\<exists>r \<in> set ?rows. lower (listed_email r) = lower (strip email)"
    using found by (simp only: list_ex_iff)
  then obtain r where r: "r \<in> set ?rows" "lower (listed_email r) = lower (strip email)"
    by blast
  have "\<exists>b. listed_email r = universal_newlines b"
    by (cases r) (auto simp add: listed_email_def)
  then have un: "universal_newlines (strip email) = strip email"
    using r(2) un_of_match by metis
  have new_email: "listed_email ?new = strip email"
    by (simp add: listed_email_def un)
  have 3: "list_ex (\<lambda>r. lower (listed_email r) = lower (listed_email ?new)) ?rows"
    using r unfolding new_email list_ex_iff by blast
  have "length (strip email) = length (listed_email r)"
    using r(2) length_lower by metis
  then have email_ok: "within_limit (strip email)"
    using listed_email_within_limit[OF ok r(1)] by (simp add: within_limit_def un)
  have 4: "\<exists>res. get_all_registrations (store_file (?rows @ [?new])) =
                    (Inr res, store_file (?rows @ [?new])) \<and>
                  getitem (last (data res)) ''Email'' = Inr (Str (strip email)) \<and>
                  \<not> distinct (map (\<lambda>r. getitem_lower r ''Email'') (data res))"
    if lim: "within_limit (strip name) \<and> within_limit dob"
  proof -
    have "readable (?rows @ [?new])"
      using ok lim email_ok strftime_within_limit by (simp add: readable_append)
    then have listing: "get_all_registrations (store_file (?rows @ [?new])) =
        (Inr \<lparr>success = True, count = None, data = map as_read (?rows @ [?new])\<rparr>,
         store_file (?rows @ [?new]))"
      by (simp add: get_all_store)
    have last_email: "getitem (last (map as_read (?rows @ [?new]))) ''Email'' = Inr (Str (strip email))"
      by (simp add: as_read_def un getitem_def registration_def)
    have "(Inr (lower (listed_email ?new)) :: py_error + string) =
          (\<lambda>r. Inr (lower (listed_email r))) r"
      using r(2) new_email by simp
    then have "(Inr (lower (listed_email ?new)) :: py_error + string) \<in>
          (\<lambda>r. Inr (lower (listed_email r))) ` set ?rows"
      using r(1) by (rule image_eqI)
    then have "(Inr (lower (listed_email ?new)) :: py_error + string) \<in>
          set (map (\<lambda>r. Inr (lower (listed_email r))) ?rows)"
      by (simp only: set_map)
    then have "\<not> distinct (map (\<lambda>r. Inr (lower (listed_email r)) :: py_error + string) (?rows @ [?new]))"
      by (simp del: map_map)
    then have dup: "\<not> distinct (map (\<lambda>r. getitem_lower r ''Email'') (map as_read (?rows @ [?new])))"
      unfolding emails_of_listing .
    show ?thesis
      using listing last_email dup by (intro exI[of _ "\<lparr>success = True, count = None, data = map as_read (?rows @ [?new])\<rparr>"]) simp
  qed
  have s: "snd (add_registration V now name email dob f) = store_file (?rows @ [?new])"
    by (simp add: add)
  have c3: "\<exists>rows. f = store_file rows \<and>
                 snd (add_registration V now name email dob f) = store_file (rows @ [?new]) \<and>
                 list_ex (\<lambda>r. lower (listed_email r) = lower (listed_email ?new)) rows"
    using f s 3 by blast
  have c2: "fst (add_registration V now name email dob f) =
           Inr (Registered (''Registered '' @ name) (registration name email dob (strftime now)))"
    by (simp add: add)
  show ?thesis
    using 1 c2 c3 4 unfolding s by blast
qed

theorem padded_email_passes_duplicate_check_witness:
  "fst (validate_name (spec_validator noon) ''Johnny Doe'') \<and>
   fst (validate_email (spec_validator noon) '' john@x.com'') \<and>
   fst (validate_date_of_birth (spec_validator noon) ''1991-02-03'') \<and>
   strip '' john@x.com'' \<noteq> '' john@x.com'' \<and>
   email_exists (strip '' john@x.com'')
       (fold perform [Add (spec_validator noon) noon ''John Doe'' ''john@x.com'' ''1990-01-15''] (init None)) =
     (Inr True,
      fold perform [Add (spec_validator noon) noon ''John Doe'' ''john@x.com'' ''1990-01-15''] (init None)) \<and>
   email_exists '' john@x.com''
       (fold perform [Add (spec_validator noon) noon ''John Doe'' ''john@x.com'' ''1990-01-15''] (init None)) =
     (Inr False,
      fold perform [Add (spec_validator noon) noon ''John Doe'' ''john@x.com'' ''1990-01-15''] (init None)) \<and>
   fst (add_registration (spec_validator noon) noon ''Johnny Doe'' '' john@x.com'' ''1991-02-03''
         (fold perform [Add (spec_validator noon) noon ''John Doe'' ''john@x.com'' ''1990-01-15''] (init None))) =
     Inr (Registered (''Registered '' @ ''Johnny Doe'')
           (registration ''Johnny Doe'' '' john@x.com'' ''1991-02-03'' (strftime noon)))"
proof -
  let ?f = "fold perform [Add (spec_validator noon) noon ''John Doe'' ''john@x.com'' ''1990-01-15''] (init None)"
  have added: "add_registration (spec_validator noon) noon ''John Doe'' ''john@x.com'' ''1990-01-15''
      (store_file []) =
      (Inr (Registered (''Registered '' @ ''John Doe'')
             (registration ''John Doe'' ''john@x.com'' ''1990-01-15'' (strftime noon))),
       store_file ([] @ [(strip ''John Doe'', strip ''john@x.com'', ''1990-01-15'', strftime noon)]))"
  proof (rule add_store_new[OF _ _ _ readable_Nil])
    show "fst (validate_name (spec_validator noon) ''John Doe'')" by code_simp
    show "fst (validate_email (spec_validator noon) ''john@x.com'')" by code_simp
    show "fst (validate_date_of_birth (spec_validator noon) ''1990-01-15'')" by code_simp
    show "\<not> list_ex (\<lambda>r. lower (listed_email r) = lower ''john@x.com'') []" by simp
  qed
  have s: "strip ''John Doe'' = ''John Doe''" "strip ''john@x.com'' = ''john@x.com''"
    by code_simp+
  have f: "?f = store_file [john]"
    by (simp add: init_None added s strftime_noon john_def)
  have 1: "fst (validate_name (spec_validator noon) ''Johnny Doe'')" by code_simp
  have 2: "fst (validate_email (spec_validator noon) '' john@x.com'')" by code_simp
  have 3: "fst (validate_date_of_birth (spec_validator noon) ''1991-02-03'')" by code_simp
  have 4: "strip '' john@x.com'' \<noteq> '' john@x.com''" by code_simp
  have "list_ex (\<lambda>r. lower (listed_email r) = lower (strip '' john@x.com'')) [john]" by code_simp
  then have 5: "email_exists (strip '' john@x.com'') ?f = (Inr True, ?f)"
    unfolding f using readable_john by (simp add: email_exists_store)
  show ?thesis
    using 1 2 3 4 5 padded_email_passes_duplicate_check[OF refl 1 2 3 4 5, where now = noon] by blast
qed

end
